theory Spec2Isabelle
  imports Main "HOL-Library.Sublist"
begin

section \<open>Python strings and lists\<close>

text \<open>
  A Python \<open>str\<close> is modelled as a \<open>string\<close>; a character stands for the code point
  of the same number, so the model covers text whose code points are below 256.
  An exception raised by the source is a value \<open>Inl e\<close> of the result.
\<close>

datatype py_error = ValueError | IndexError | ZeroDivisionError

text \<open>\<open>str.isspace\<close> on one character (also the class \<open>\s\<close> of \<open>re\<close>).\<close>

definition py_isspace :: "char \<Rightarrow> bool" where
  "py_isspace c =
     (let n = (of_char c :: nat)
      in (9 \<le> n \<and> n \<le> 13) \<or> (28 \<le> n \<and> n \<le> 32) \<or> n = 133 \<or> n = 160)"

text \<open>\<open>s.split(sep)\<close> for a one-character separator: every occurrence splits, empty
  pieces are kept, the result is never empty.\<close>

fun split_on :: "char \<Rightarrow> string \<Rightarrow> string list" where
  "split_on sep [] = [[]]"
| "split_on sep (c # cs) =
     (if c = sep then [] # split_on sep cs
      else (c # hd (split_on sep cs)) # tl (split_on sep cs))"

text \<open>\<open>s.split()\<close>: split at runs of whitespace, no empty pieces.\<close>

fun split_ws_aux :: "string \<Rightarrow> string \<Rightarrow> string list" where
  "split_ws_aux cur [] = (if cur = [] then [] else [cur])"
| "split_ws_aux cur (c # cs) =
     (if py_isspace c
      then (if cur = [] then split_ws_aux [] cs else cur # split_ws_aux [] cs)
      else split_ws_aux (cur @ [c]) cs)"

definition split_ws :: "string \<Rightarrow> string list" where
  "split_ws s = split_ws_aux [] s"


text \<open>\<open>s.replace('-', '_')\<close>.\<close>

definition hyphen_to_underscore :: "string \<Rightarrow> string" where
  "hyphen_to_underscore s = map (\<lambda>c. if c = CHR ''-'' then CHR ''_'' else c) s"

text \<open>\<open>s.startswith(p)\<close>.\<close>

definition startswith :: "string \<Rightarrow> string \<Rightarrow> bool" where
  "startswith s p = (take (length p) s = p)"

text \<open>\<open>xs.index(x)\<close>: the position of the first element equal to \<open>x\<close>; the source
  raises \<open>ValueError\<close> when there is none.\<close>

fun index_of :: "'a \<Rightarrow> 'a list \<Rightarrow> nat option" where
  "index_of x [] = None"
| "index_of x (y # ys) = (if x = y then Some 0 else map_option Suc (index_of x ys))"

text \<open>\<open>xs[i:j]\<close> for indices that are not negative.\<close>

definition slice :: "nat \<Rightarrow> nat \<Rightarrow> 'a list \<Rightarrow> 'a list" where
  "slice i j xs = drop i (take j xs)"

section \<open>SpeciesExtractor\<close>

text \<open>
  One iteration of the loop of \<open>extract_species\<close> (lines 35 to 40). \<open>line.split()[0]\<close>
  raises \<open>IndexError\<close> on a line without a token, \<open>line.split('!')[1]\<close> on a line without
  \<open>!\<close>. A row is the pair (Species, MGName).
\<close>

definition is_comment :: "string \<Rightarrow> bool" where
  "is_comment line = (startswith (hd (split_ws line)) ''!'' \<or> startswith (hd (split_ws line)) ''.'')"

definition extract_line :: "string \<Rightarrow> py_error + (string \<times> string) option" where
  "extract_line line =
     (if split_ws line = [] then Inl IndexError
      else if is_comment line then Inr None
      else
        let mgname = hd (split_on CHR '' '' (hd (split_on CHR ''!'' line)));
            parts = split_on CHR ''!'' line
        in if length parts < 2 then Inl IndexError
           else
             let name = last (split_on CHR '' '' (hd (split_on CHR 0x0A (parts ! 1))))
             in Inr (Some (name, mgname)))"

fun extract_rows :: "string list \<Rightarrow> py_error + (string \<times> string) list" where
  "extract_rows [] = Inr []"
| "extract_rows (l # ls) =
     (case extract_line l of
        Inl e \<Rightarrow> Inl e
      | Inr r \<Rightarrow>
          (case extract_rows ls of
             Inl e \<Rightarrow> Inl e
           | Inr rs \<Rightarrow> Inr (case r of None \<Rightarrow> rs | Some p \<Rightarrow> p # rs)))"

text \<open>\<open>DataFrame.drop_duplicates(subset='Species')\<close>: of the rows with one Species the
  first is kept. (\<open>dropna\<close> before it drops nothing: every Species is a \<open>str\<close>.)\<close>

fun drop_duplicates :: "string list \<Rightarrow> (string \<times> string) list \<Rightarrow> (string \<times> string) list" where
  "drop_duplicates seen [] = []"
| "drop_duplicates seen (r # rs) =
     (if fst r \<in> set seen then drop_duplicates seen rs
      else r # drop_duplicates (fst r # seen) rs)"

text \<open>\<open>extract_species\<close>, from the list \<open>lines\<close> that \<open>readlines\<close> returned. Both markers
  are looked up with \<open>lines.index\<close>, each from the beginning of the list.\<close>

definition section_lines :: "string list \<Rightarrow> nat \<Rightarrow> nat \<Rightarrow> string list" where
  "section_lines lines start_index end_index = slice start_index end_index lines"

definition extract_species ::
  "string list \<Rightarrow> string \<Rightarrow> string \<Rightarrow> py_error + (string \<times> string) list" where
  "extract_species lines string_start string_end =
     (case index_of (string_start @ [CHR 0x0A]) lines of
        None \<Rightarrow> Inl ValueError
      | Some s \<Rightarrow>
          (case index_of (string_end @ [CHR 0x0A]) lines of
             None \<Rightarrow> Inl ValueError
           | Some end_index \<Rightarrow>
               (case extract_rows (section_lines lines (s + 1) end_index) of
                  Inl e \<Rightarrow> Inl e
                | Inr rows \<Rightarrow> Inr (drop_duplicates [] rows))))"

text \<open>\<open>build_compounds\<close>: the MGName columns of the two sections, the active one
  filtered, then the three lists joined and the hyphens replaced.\<close>

definition build_compounds ::
  "string list \<Rightarrow> string list \<Rightarrow> py_error + (string list \<times> string list)" where
  "build_compounds lines default_compounds =
     (case extract_species lines ''.STS'' ''.RXN'' of
        Inl e \<Rightarrow> Inl e
      | Inr df_sts \<Rightarrow>
          (case extract_species lines ''.ACT'' ''.RXN'' of
             Inl e \<Rightarrow> Inl e
           | Inr df_act \<Rightarrow>
               let compounds_sts = map snd df_sts;
                   compounds_act = [comp \<leftarrow> map snd df_act.
                      comp \<notin> set default_compounds \<and> comp \<notin> set compounds_sts];
                   compounds_total = default_compounds @ compounds_act @ compounds_sts
               in Inr (map hyphen_to_underscore compounds_total, compounds_sts)))"

text \<open>A line that the loop cannot read: blank or of whitespace only, or not a comment and
  without \<open>!\<close>.\<close>

definition malformed_line :: "string \<Rightarrow> bool" where
  "malformed_line l =
     ((\<forall>c\<in>set l. py_isspace c) \<or> (\<not> is_comment l \<and> CHR ''!'' \<notin> set l))"

section \<open>Cleaning the compound list\<close>


text \<open>The class \<open>\w\<close> of \<open>re\<close> on one character: alphanumeric, or the underscore.\<close>

definition py_isword :: "char \<Rightarrow> bool" where
  "py_isword c =
     (let n = (of_char c :: nat)
      in (48 \<le> n \<and> n \<le> 57) \<or> (65 \<le> n \<and> n \<le> 90) \<or> n = 95 \<or> (97 \<le> n \<and> n \<le> 122)
         \<or> n = 170 \<or> n = 178 \<or> n = 179 \<or> n = 181 \<or> n = 185 \<or> n = 186
         \<or> (188 \<le> n \<and> n \<le> 190) \<or> (192 \<le> n \<and> n \<le> 214)
         \<or> (216 \<le> n \<and> n \<le> 246) \<or> (248 \<le> n \<and> n \<le> 255))"

text \<open>\<open>\b\<close> at position \<open>p\<close>: exactly one of the characters before and at \<open>p\<close> is a word
  character (a position outside the text counts as not a word character).\<close>

definition word_at :: "string \<Rightarrow> nat \<Rightarrow> bool" where
  "word_at text p = (p < length text \<and> py_isword (text ! p))"

definition word_boundary :: "string \<Rightarrow> nat \<Rightarrow> bool" where
  "word_boundary text p = ((0 < p \<and> word_at text (p - 1)) \<noteq> word_at text p)"

text \<open>\<open>sep.join(xs)\<close>.\<close>

fun py_join :: "string \<Rightarrow> string list \<Rightarrow> string" where
  "py_join sep [] = []"
| "py_join sep [x] = x"
| "py_join sep (x # y # ys) = x @ sep @ py_join sep (y # ys)"

text \<open>
  One attempt of the pattern \<open>\b(?:c1|...|cn)\b\<close> at position \<open>p\<close>: the alternatives are
  tried in order, each is an escaped literal, and the first that matches and is followed
  by a word boundary wins. When \<open>must_advance\<close> is set, an empty match is refused.
\<close>

fun match_alt :: "string list \<Rightarrow> string \<Rightarrow> nat \<Rightarrow> bool \<Rightarrow> string option" where
  "match_alt [] text p must_advance = None"
| "match_alt (c # cs) text p must_advance =
     (if take (length c) (drop p text) = c \<and> word_boundary text (p + length c)
         \<and> \<not> (must_advance \<and> c = [])
      then Some c else match_alt cs text p must_advance)"

definition match_at :: "string list \<Rightarrow> string \<Rightarrow> nat \<Rightarrow> bool \<Rightarrow> string option" where
  "match_at alts text p must_advance =
     (if word_boundary text p then match_alt alts text p must_advance else None)"

text \<open>
  \<open>re.findall\<close>: the text is scanned from the left; after a match the scan goes on at its
  end, after an empty match at the same position with \<open>must_advance\<close> set, after a failed
  attempt one character further.
\<close>

function findall_from :: "string list \<Rightarrow> string \<Rightarrow> nat \<Rightarrow> bool \<Rightarrow> string list" where
  "findall_from alts text p must_advance =
     (if length text < p then []
      else (case match_at alts text p must_advance of
              None \<Rightarrow> findall_from alts text (p + 1) False
            | Some c \<Rightarrow> c # findall_from alts text (p + length c) (c = [])))"
  by pat_completeness auto
termination
proof (relation "measure (\<lambda>(alts, s, p, adv). 2 * (length s + 1 - p) + (if adv then 0 else 1))")
  show "wf (measure (\<lambda>(alts, s, p, adv). 2 * (length s + 1 - p) + (if adv then 0 else 1)))"
    by simp
next
  fix alts :: "string list" and s :: string and p :: nat and must_advance :: bool
  assume "\<not> length s < p" "match_at alts s p must_advance = None"
  then show "((alts, s, p + 1, False), alts, s, p, must_advance)
        \<in> measure (\<lambda>(alts, s, p, adv). 2 * (length s + 1 - p) + (if adv then 0 else 1))"
    by auto
next
  fix alts :: "string list" and s :: string and p :: nat and must_advance :: bool and c :: string
  assume a: "\<not> length s < p" "match_at alts s p must_advance = Some c"
  have e: "match_alt as s p must_advance = Some [] \<Longrightarrow> \<not> must_advance" for as
    by (induction as) (auto split: if_splits)
  have m: "match_alt alts s p must_advance = Some c"
    using a(2) by (simp add: match_at_def split: if_splits)
  show "((alts, s, p + length c, c = []), alts, s, p, must_advance)
        \<in> measure (\<lambda>(alts, s, p, adv). 2 * (length s + 1 - p) + (if adv then 0 else 1))"
  proof (cases "c = []")
    case True
    then have "\<not> must_advance" using m e by blast
    then show ?thesis using True by simp
  next
    case False
    then have "0 < length c" by simp
    then have "2 * (length s + 1 - (p + length c)) + 1 < 2 * (length s + 1 - p)"
      using a(1) by arith
    then show ?thesis using False by simp
  qed
qed

text \<open>The alternatives of the compiled pattern: \<open>'|'.join\<close> of no name is the empty
  string, so the pattern of an empty list has the one empty alternative.\<close>

definition alternatives :: "string list \<Rightarrow> string list" where
  "alternatives compound_list = (if compound_list = [] then [[]] else compound_list)"

definition clean_null_compounds :: "string list \<Rightarrow> string list \<Rightarrow> string list \<times> string list" where
  "clean_null_compounds compound_list reaction_list =
     (let combined_reactions = py_join '' '' reaction_list;
          found_compounds = set (findall_from (alternatives compound_list) combined_reactions 0 False)
      in ([comp \<leftarrow> compound_list. comp \<in> found_compounds],
          [comp \<leftarrow> compound_list. comp \<notin> found_compounds]))"

text \<open>A whole-word occurrence of \<open>c\<close> in \<open>text\<close> at position \<open>p\<close>, and at some position.\<close>

definition occurs_at :: "string \<Rightarrow> string \<Rightarrow> nat \<Rightarrow> bool" where
  "occurs_at c text p =
     (take (length c) (drop p text) = c \<and> word_boundary text p \<and> word_boundary text (p + length c))"

definition occurs_whole_word :: "string \<Rightarrow> string \<Rightarrow> bool" where
  "occurs_whole_word c text = list_ex (occurs_at c text) [0 ..< Suc (length text)]"

definition word_name :: "string \<Rightarrow> bool" where
  "word_name c = (c \<noteq> [] \<and> list_all py_isword c)"

section \<open>Rate translation: the photolysis branch\<close>


text \<open>
  \<open>re.search\<close> for a pattern \<open>key([class]+)\<close>: the leftmost position where the literal
  \<open>key\<close> is followed by at least one character of the class; the group is the longest run
  of characters of the class from there.
\<close>

fun search_after :: "string \<Rightarrow> (char \<Rightarrow> bool) \<Rightarrow> string \<Rightarrow> string option" where
  "search_after key cls [] = None"
| "search_after key cls (c # cs) =
     (if take (length key) (c # cs) = key \<and> drop (length key) (c # cs) \<noteq> []
         \<and> cls (hd (drop (length key) (c # cs)))
      then Some (takeWhile cls (drop (length key) (c # cs)))
      else search_after key cls cs)"



section \<open>Python floats\<close>

text \<open>
  A Python \<open>float\<close> is an IEEE 754 binary64 number: \<open>Finite s m e\<close> is the number
  \<open>(-1)^s * m * 2^e\<close> with \<open>m < 2^53\<close> and \<open>-1074 \<le> e \<le> 971\<close> (zero has a
  sign), besides the two infinities and the one NaN that Python shows.
\<close>

datatype pyfloat = Finite bool nat int | Infinity bool | NaN

text \<open>The number of binary digits of a natural number.\<close>

fun bitlen_nat :: "nat \<Rightarrow> nat" where
  "bitlen_nat n = (if n = 0 then 0 else Suc (bitlen_nat (n div 2)))"

declare bitlen_nat.simps [simp del]

text \<open>The quotient \<open>a / b\<close> rounded to the nearest natural number, a tie to the even one.\<close>

definition round_half_even :: "nat \<Rightarrow> nat \<Rightarrow> nat" where
  "round_half_even a b =
     (let q = a div b; r = a mod b
      in if 2 * r < b then q
         else if b < 2 * r then q + 1
         else if even q then q else q + 1)"

text \<open>\<open>(n / d) / 2^e\<close> as a fraction of natural numbers.\<close>

definition scale2 :: "nat \<Rightarrow> nat \<Rightarrow> int \<Rightarrow> nat \<times> nat" where
  "scale2 n d e = (if 0 \<le> e then (n, d * 2 ^ nat e) else (n * 2 ^ nat (- e), d))"

text \<open>
  The positive rational \<open>n / d\<close> (with \<open>d > 0\<close>), given the sign \<open>s\<close>, rounded to the nearest
  binary64 number, ties to the even mantissa: the exponent \<open>e\<close> puts the quotient into
  \<open>[2^52, 2^53)\<close> and is at least \<open>-1074\<close> (below that the numbers are subnormal); a
  mantissa that rounds up to \<open>2^53\<close> moves to the next exponent; beyond the largest
  exponent the result is an infinity.
\<close>

definition round_to_double :: "bool \<Rightarrow> nat \<Rightarrow> nat \<Rightarrow> pyfloat" where
  "round_to_double s n d =
     (if n = 0 then Finite s 0 0
      else
        let k = int (bitlen_nat n) - int (bitlen_nat d);
            (a, b) = scale2 n d k;
            fl = (if b \<le> a then k else k - 1);
            e = max (fl - 52) (- 1074);
            (a', b') = scale2 n d e;
            m = round_half_even a' b';
            (m', e') = (if m = 2 ^ 53 then (2 ^ 52, e + 1) else (m, e))
        in if 971 < e' then Infinity s
           else if m' = 0 then Finite s 0 0
           else Finite s m' e')"













text \<open>\<open>x + y\<close>.\<close>

fun fadd :: "pyfloat \<Rightarrow> pyfloat \<Rightarrow> pyfloat" where
  "fadd NaN y = NaN"
| "fadd x NaN = NaN"
| "fadd (Infinity s) (Infinity t) = (if s = t then Infinity s else NaN)"
| "fadd (Infinity s) (Finite t m' e') = Infinity s"
| "fadd (Finite s m e) (Infinity t) = Infinity t"
| "fadd (Finite s m e) (Finite t m' e') =
     (let el = min e e';
          a = (if s then - int m else int m) * 2 ^ nat (e - el);
          b = (if t then - int m' else int m') * 2 ^ nat (e' - el);
          c = a + b
      in if c = 0 then Finite (s \<and> t) 0 0
         else if 0 \<le> el then round_to_double (c < 0) (nat \<bar>c\<bar> * 2 ^ nat el) 1
         else round_to_double (c < 0) (nat \<bar>c\<bar>) (2 ^ nat (- el)))"

declare fadd.simps [simp del]

text \<open>\<open>x > 0\<close>.\<close>

fun fgt0 :: "pyfloat \<Rightarrow> bool" where
  "fgt0 (Finite s m e) = (\<not> s \<and> 0 < m)"
| "fgt0 (Infinity s) = (\<not> s)"
| "fgt0 NaN = False"















section \<open>ReactionExtractor\<close>




section \<open>Properties of the species extractor\<close>

lemma split_on_ne: "split_on c s \<noteq> []"
  by (induction s) auto

lemma length_split_on: "length (split_on c s) = Suc (length (filter (\<lambda>x. x = c) s))"
  by (induction s) (auto simp: split_on_ne)

lemma split_on_lt2: "length (split_on c s) < 2 \<longleftrightarrow> c \<notin> set s"
  by (auto simp: length_split_on filter_empty_conv)

lemma split_ws_aux_empty:
  "split_ws_aux cur s = [] \<longleftrightarrow> cur = [] \<and> (\<forall>c\<in>set s. py_isspace c)"
  by (induction s arbitrary: cur) auto

lemma split_ws_empty: "split_ws s = [] \<longleftrightarrow> (\<forall>c\<in>set s. py_isspace c)"
  by (simp add: split_ws_def split_ws_aux_empty)

lemma extract_line_err: "extract_line l = Inl e \<longleftrightarrow> e = IndexError \<and> malformed_line l"
  by (auto simp: extract_line_def malformed_line_def split_ws_empty split_on_lt2 Let_def)

lemma extract_line_ok: "extract_line l = Inr r \<Longrightarrow> \<not> malformed_line l"
  using extract_line_err[of l IndexError] by auto

lemma extract_rows_err:
  "extract_rows ls = Inl e \<longleftrightarrow> e = IndexError \<and> (\<exists>l\<in>set ls. malformed_line l)"
proof (induction ls arbitrary: e)
  case Nil
  then show ?case by simp
next
  case (Cons l ls)
  show ?case
  proof (cases "extract_line l")
    case (Inl x)
    then show ?thesis using extract_line_err[of l x] by auto
  next
    case (Inr r)
    then show ?thesis using Cons.IH extract_line_ok[OF Inr]
      by (cases "extract_rows ls") auto
  qed
qed

lemma extract_species_found:
  assumes "index_of (string_start @ [CHR 0x0A]) lines = Some s"
      and "index_of (string_end @ [CHR 0x0A]) lines = Some e"
  shows "extract_species lines string_start string_end =
           (case extract_rows (section_lines lines (s + 1) e) of
              Inl err \<Rightarrow> Inl err | Inr rows \<Rightarrow> Inr (drop_duplicates [] rows))"
  using assms by (simp add: extract_species_def)

text \<open>
  Claim C10. When both markers are found, \<open>extract_species\<close> raises \<open>IndexError\<close> exactly
  when some line of the section is blank or of whitespace only, or is not a comment and
  has no \<open>!\<close>; it returns a table exactly when no line of the section is like that. An
  offending line is never skipped.
\<close>

theorem extract_species_total_iff_wellformed:
  assumes "index_of (string_start @ [CHR 0x0A]) lines = Some s"
      and "index_of (string_end @ [CHR 0x0A]) lines = Some e"
  shows "(extract_species lines string_start string_end = Inl IndexError
            \<longleftrightarrow> (\<exists>l \<in> set (section_lines lines (s + 1) e). malformed_line l))
       \<and> ((\<exists>rows. extract_species lines string_start string_end = Inr rows)
            \<longleftrightarrow> (\<forall>l \<in> set (section_lines lines (s + 1) e). \<not> malformed_line l))"
proof (cases "extract_rows (section_lines lines (s + 1) e)")
  case (Inl err)
  then have m: "err = IndexError \<and> (\<exists>l \<in> set (section_lines lines (s + 1) e). malformed_line l)"
    using extract_rows_err by blast
  have "extract_species lines string_start string_end = Inl IndexError"
    using extract_species_found[OF assms] Inl m by simp
  then show ?thesis using m by auto
next
  case (Inr rows)
  have n: "\<not> (\<exists>l \<in> set (section_lines lines (s + 1) e). malformed_line l)"
  proof
    assume "\<exists>l \<in> set (section_lines lines (s + 1) e). malformed_line l"
    then have "extract_rows (section_lines lines (s + 1) e) = Inl IndexError"
      using extract_rows_err by blast
    with Inr show False by simp
  qed
  have "extract_species lines string_start string_end = Inr (drop_duplicates [] rows)"
    using extract_species_found[OF assms] Inr by simp
  then show ?thesis using n by auto
qed

theorem extract_species_total_iff_wellformed_witness:
  "index_of (''.STS'' @ [CHR 0x0A]) [''.STS\<newline>'', ''A ! a\<newline>'', ''\<newline>'', ''.RXN\<newline>''] = Some 0
   \<and> index_of (''.RXN'' @ [CHR 0x0A]) [''.STS\<newline>'', ''A ! a\<newline>'', ''\<newline>'', ''.RXN\<newline>''] = Some 3
   \<and> malformed_line ''\<newline>''
   \<and> extract_species [''.STS\<newline>'', ''A ! a\<newline>'', ''\<newline>'', ''.RXN\<newline>''] ''.STS'' ''.RXN''
       = Inl IndexError"
proof -
  let ?L = "[''.STS\<newline>'', ''A ! a\<newline>'', ''\<newline>'', ''.RXN\<newline>'']"
  have a: "index_of (''.STS'' @ [CHR 0x0A]) ?L = Some 0" by simp
  have b: "index_of (''.RXN'' @ [CHR 0x0A]) ?L = Some 3" by simp
  have m: "malformed_line ''\<newline>''" by (simp add: malformed_line_def py_isspace_def)
  have c: "\<exists>l \<in> set (section_lines ?L (0 + 1) 3). malformed_line l"
    using m by (simp add: section_lines_def slice_def)
  from extract_species_total_iff_wellformed[OF a b] c
  have "extract_species ?L ''.STS'' ''.RXN'' = Inl IndexError" by blast
  with a b m show ?thesis by blast
qed

text \<open>
  Claim C8. The end marker is looked up from the beginning of the list, not from the start
  marker: when a line equal to the end marker stands before the start marker, that earlier
  line bounds the section, and the section is empty although a data line lies between
  the start marker and the next end marker.
\<close>

theorem extract_species_end_marker_before_start:
  "extract_species [''.RXN\<newline>'', ''.STS\<newline>'', ''A ! a\<newline>'', ''.RXN\<newline>''] ''.STS'' ''.RXN''
     = Inr []
   \<and> index_of (''.STS'' @ [CHR 0x0A]) [''.RXN\<newline>'', ''.STS\<newline>'', ''A ! a\<newline>'', ''.RXN\<newline>''] = Some 1
   \<and> index_of (''.RXN'' @ [CHR 0x0A]) [''.RXN\<newline>'', ''.STS\<newline>'', ''A ! a\<newline>'', ''.RXN\<newline>''] = Some 0"
  by (simp add: extract_species_def section_lines_def slice_def)

lemma count_list_map_inj:
  "inj_on f (insert c (set xs)) \<Longrightarrow> count_list (map f xs) (f c) = count_list xs c"
proof (induction xs)
  case Nil
  then show ?case by simp
next
  case (Cons x xs)
  have i: "inj_on f (insert c (set xs))"
    using Cons.prems by (rule inj_on_subset) auto
  have "f x = f c \<longleftrightarrow> x = c"
    using Cons.prems by (auto simp: inj_on_def)
  then show ?case using Cons.IH[OF i] by simp
qed

lemma count_list_filter_out: "\<not> P c \<Longrightarrow> count_list (filter P xs) c = 0"
  by (induction xs) auto

lemma no_hyphen_after_replace:
  "CHR ''-'' \<notin> set (map (\<lambda>c. if c = CHR ''-'' then CHR ''_'' else c) n)"
  by auto

text \<open>
  Claim C6, amended. If one of the two sections cannot be extracted, \<open>build_compounds\<close>
  raises that error. Otherwise it returns, and the master list is the defaults, then the
  names of the active section that are neither a default nor a steady-state name, then the
  steady-state names, in this order and each with every hyphen replaced by an underscore;
  no returned name contains a hyphen. A name of the defaults or of the steady-state section
  occurs in the master list exactly as often as in these two lists together, so an active
  entry of that name adds no occurrence, provided that the replacement of hyphens makes no
  two of the names equal.
\<close>

theorem build_compounds_master_list:
  "case extract_species lines ''.STS'' ''.RXN'' of
     Inl e \<Rightarrow> build_compounds lines defaults = Inl e
   | Inr df_sts \<Rightarrow>
       (case extract_species lines ''.ACT'' ''.RXN'' of
          Inl e \<Rightarrow> build_compounds lines defaults = Inl e
        | Inr df_act \<Rightarrow>
            (\<exists>middle compounds_total.
               build_compounds lines defaults = Inr (compounds_total, map snd df_sts)
             \<and> middle = [c \<leftarrow> map snd df_act. c \<notin> set defaults \<and> c \<notin> snd ` set df_sts]
             \<and> compounds_total =
                 map (map (\<lambda>c. if c = CHR ''-'' then CHR ''_'' else c))
                   (defaults @ middle @ map snd df_sts)
             \<and> (\<forall>n \<in> set compounds_total. CHR ''-'' \<notin> set n)
             \<and> (inj_on (map (\<lambda>c. if c = CHR ''-'' then CHR ''_'' else c))
                   (set defaults \<union> snd ` set df_act \<union> snd ` set df_sts) \<longrightarrow>
                  (\<forall>c \<in> set defaults \<union> snd ` set df_sts.
                     count_list compounds_total (map (\<lambda>c. if c = CHR ''-'' then CHR ''_'' else c) c)
                       = count_list defaults c + count_list (map snd df_sts) c))))"
proof (cases "extract_species lines ''.STS'' ''.RXN''")
  case (Inl e)
  then show ?thesis by (simp add: build_compounds_def)
next
  case s: (Inr df_sts)
  show ?thesis
  proof (cases "extract_species lines ''.ACT'' ''.RXN''")
    case (Inl e)
    then show ?thesis using s by (simp add: build_compounds_def)
  next
    case a: (Inr df_act)
    let ?h = "map (\<lambda>c. if c = CHR ''-'' then CHR ''_'' else c)"
    let ?sts = "map snd df_sts"
    let ?mid = "[c \<leftarrow> map snd df_act. c \<notin> set defaults \<and> c \<notin> snd ` set df_sts]"
    let ?tot = "map ?h (defaults @ ?mid @ ?sts)"
    have b: "build_compounds lines defaults = Inr (?tot, ?sts)"
      using s a by (simp add: build_compounds_def hyphen_to_underscore_def Let_def)
    have nh: "\<forall>n \<in> set ?tot. CHR ''-'' \<notin> set n"
    proof
      fix n assume "n \<in> set ?tot"
      then obtain m where "n = ?h m" by auto
      then show "CHR ''-'' \<notin> set n" using no_hyphen_after_replace[of m] by simp
    qed
    have cnt: "count_list ?tot (?h c) = count_list defaults c + count_list ?sts c"
      if inj: "inj_on ?h (set defaults \<union> snd ` set df_act \<union> snd ` set df_sts)"
        and c: "c \<in> set defaults \<union> snd ` set df_sts" for c
    proof -
      have "inj_on ?h (insert c (set (defaults @ ?mid @ ?sts)))"
        using inj by (rule inj_on_subset) (use c in auto)
      then have "count_list ?tot (?h c) = count_list (defaults @ ?mid @ ?sts) c"
        by (rule count_list_map_inj)
      moreover have "count_list ?mid c = 0"
        by (rule count_list_filter_out) (use c in auto)
      ultimately show ?thesis by simp
    qed
    show ?thesis
      unfolding s a sum.case using b nh cnt by blast
  qed
qed

theorem build_compounds_master_list_witness:
  "build_compounds [''.ACT\<newline>'', ''A-1 ! a\<newline>'', ''B ! b\<newline>'', ''.STS\<newline>'', ''B ! b\<newline>'', ''.RXN\<newline>'']
      [''RO2''] = Inr ([''RO2'', ''A_1'', ''B''], [''B''])
   \<and> CHR ''-'' \<notin> set ''A_1''
   \<and> count_list [''RO2'', ''A_1'', ''B''] ''B'' = 1"
proof -
  let ?L = "[''.ACT\<newline>'', ''A-1 ! a\<newline>'', ''B ! b\<newline>'', ''.STS\<newline>'', ''B ! b\<newline>'', ''.RXN\<newline>'']"
  let ?h = "map (\<lambda>c. if c = CHR ''-'' then CHR ''_'' else c)"
  have s: "extract_species ?L ''.STS'' ''.RXN'' = Inr [(''b'', ''B'')]"
    by (simp add: extract_species_def section_lines_def slice_def
        extract_line_def split_ws_def py_isspace_def is_comment_def startswith_def Let_def)
  have a: "extract_species ?L ''.ACT'' ''.RXN'' = Inr [(''a'', ''A-1''), (''b'', ''B'')]"
    by (simp add: extract_species_def section_lines_def slice_def
        extract_line_def split_ws_def py_isspace_def is_comment_def startswith_def Let_def)
  have inj: "inj_on ?h (set [''RO2''] \<union> snd ` set [(''a'', ''A-1''), (''b'', ''B'')]
               \<union> snd ` set [(''b'', ''B'')])"
    by (auto simp: inj_on_def)
  have mem: "''B'' \<in> set [''RO2''] \<union> snd ` set [(''b'', ''B'')]" by simp
  from build_compounds_master_list[of ?L "[''RO2'']"]
  obtain middle compounds_total where
      b: "build_compounds ?L [''RO2''] = Inr (compounds_total, map snd [(''b'', ''B'')])"
    and m: "middle = [c \<leftarrow> map snd [(''a'', ''A-1''), (''b'', ''B'')].
                        c \<notin> set [''RO2''] \<and> c \<notin> snd ` set [(''b'', ''B'')]]"
    and t: "compounds_total = map ?h ([''RO2''] @ middle @ map snd [(''b'', ''B'')])"
    and n: "\<forall>n \<in> set compounds_total. CHR ''-'' \<notin> set n"
    and c: "inj_on ?h (set [''RO2''] \<union> snd ` set [(''a'', ''A-1''), (''b'', ''B'')]
               \<union> snd ` set [(''b'', ''B'')]) \<longrightarrow>
            (\<forall>c \<in> set [''RO2''] \<union> snd ` set [(''b'', ''B'')].
               count_list compounds_total (?h c)
                 = count_list [''RO2''] c + count_list (map snd [(''b'', ''B'')]) c)"
    unfolding s a sum.case by blast
  have tot: "compounds_total = [''RO2'', ''A_1'', ''B'']" unfolding t m by simp
  from c inj mem have "count_list compounds_total (?h ''B'')
     = count_list [''RO2''] ''B'' + count_list (map snd [(''b'', ''B'')]) ''B''" by blast
  then have k: "count_list [''RO2'', ''A_1'', ''B''] ''B'' = 1" unfolding tot by simp
  from n have h: "CHR ''-'' \<notin> set ''A_1''" unfolding tot by simp
  from b tot h k show ?thesis by simp
qed

text \<open>
  Claim C6 as stated fails: a name that is a default and also a steady-state name is
  returned twice, with or without an active entry of that name.
\<close>

theorem build_compounds_duplicate_counterexample:
  "build_compounds [''.ACT\<newline>'', ''B ! b\<newline>'', ''.STS\<newline>'', ''B ! b\<newline>'', ''.RXN\<newline>''] [''B'']
     = Inr ([''B'', ''B''], [''B''])
   \<and> ''B'' \<in> snd ` set (projr (extract_species
        [''.ACT\<newline>'', ''B ! b\<newline>'', ''.STS\<newline>'', ''B ! b\<newline>'', ''.RXN\<newline>''] ''.ACT'' ''.RXN''))
   \<and> \<not> distinct [''B'', ''B'']"
  by (simp add: build_compounds_def extract_species_def section_lines_def slice_def
      extract_line_def split_ws_def py_isspace_def is_comment_def startswith_def
      hyphen_to_underscore_def Let_def)

section \<open>Properties of the cleanup pass\<close>


declare findall_from.simps [simp del]

lemma match_alt_Some:
  "match_alt alts s p adv = Some c \<Longrightarrow>
     c \<in> set alts \<and> take (length c) (drop p s) = c \<and> word_boundary s (p + length c)
     \<and> \<not> (adv \<and> c = [])"
  by (induction alts) (auto split: if_splits)

lemma match_alt_None:
  "match_alt alts s p adv = None \<Longrightarrow> c \<in> set alts \<Longrightarrow>
     \<not> (take (length c) (drop p s) = c \<and> word_boundary s (p + length c) \<and> \<not> (adv \<and> c = []))"
  by (induction alts) (auto split: if_splits)

lemma match_alt_filter_Some:
  "match_alt alts s p adv = Some c \<Longrightarrow> Q c \<Longrightarrow> match_alt (filter Q alts) s p adv = Some c"
  by (induction alts) (auto split: if_splits)

lemma match_alt_filter_None:
  "match_alt alts s p adv = None \<Longrightarrow> match_alt (filter Q alts) s p adv = None"
  by (induction alts) (auto split: if_splits)

lemma match_at_Some:
  "match_at alts s p adv = Some c \<Longrightarrow>
     c \<in> set alts \<and> occurs_at c s p \<and> \<not> (adv \<and> c = [])"
  using match_alt_Some[of alts s p adv c]
  by (auto simp: match_at_def occurs_at_def split: if_splits)

lemma match_at_None:
  "match_at alts s p adv = None \<Longrightarrow> c \<in> set alts \<Longrightarrow> c \<noteq> [] \<Longrightarrow> \<not> occurs_at c s p"
  using match_alt_None[of alts s p adv c]
  by (auto simp: match_at_def occurs_at_def split: if_splits)

lemma match_at_filter_Some:
  "match_at alts s p adv = Some c \<Longrightarrow> Q c \<Longrightarrow> match_at (filter Q alts) s p adv = Some c"
  by (auto simp: match_at_def match_alt_filter_Some split: if_splits)

lemma match_at_filter_None:
  "match_at alts s p adv = None \<Longrightarrow> match_at (filter Q alts) s p adv = None"
  by (auto simp: match_at_def match_alt_filter_None split: if_splits)

lemma findall_filter:
  "\<forall>c \<in> set (findall_from alts s p adv). Q c \<Longrightarrow>
     findall_from (filter Q alts) s p adv = findall_from alts s p adv"
proof (induction alts s p adv rule: findall_from.induct)
  case (1 alts s p adv)
  show ?case
  proof (cases "length s < p")
    case True
    then show ?thesis by (simp add: findall_from.simps)
  next
    case False
    show ?thesis
    proof (cases "match_at alts s p adv")
      case None
      then have f: "findall_from alts s p adv = findall_from alts s (p + 1) False"
        using False by (subst findall_from.simps) simp
      have "findall_from (filter Q alts) s p adv = findall_from (filter Q alts) s (p + 1) False"
        using False match_at_filter_None[OF None, of Q] by (subst findall_from.simps) simp
      then show ?thesis using "1.IH"(1)[OF False None] "1.prems" f by simp
    next
      case (Some c)
      then have f: "findall_from alts s p adv = c # findall_from alts s (p + length c) (c = [])"
        using False by (subst findall_from.simps) simp
      then have q: "Q c" and r: "\<forall>c \<in> set (findall_from alts s (p + length c) (c = [])). Q c"
        using "1.prems" by auto
      have "findall_from (filter Q alts) s p adv
              = c # findall_from (filter Q alts) s (p + length c) (c = [])"
        using False match_at_filter_Some[of alts s p adv c Q, OF Some q] by (subst findall_from.simps) simp
      then show ?thesis using "1.IH"(2)[OF False Some r] f by simp
    qed
  qed
qed

lemma findall_sound:
  "c \<in> set (findall_from alts s p adv) \<Longrightarrow> c \<in> set alts \<and> (\<exists>q\<ge>p. q \<le> length s \<and> occurs_at c s q)"
proof (induction alts s p adv rule: findall_from.induct)
  case (1 alts s p adv)
  show ?case
  proof (cases "length s < p")
    case True
    then show ?thesis using "1.prems" by (simp add: findall_from.simps)
  next
    case False
    show ?thesis
    proof (cases "match_at alts s p adv")
      case None
      then have f: "findall_from alts s p adv = findall_from alts s (p + 1) False"
        using False by (subst findall_from.simps) simp
      then have "c \<in> set (findall_from alts s (p + 1) False)" using "1.prems" by simp
      then obtain q where "c \<in> set alts" "p + 1 \<le> q" "q \<le> length s" "occurs_at c s q"
        using "1.IH"(1)[OF False None] by blast
      then have "c \<in> set alts \<and> p \<le> q \<and> q \<le> length s \<and> occurs_at c s q" by simp
      then show ?thesis by blast
    next
      case (Some c')
      then have f: "findall_from alts s p adv = c' # findall_from alts s (p + length c') (c' = [])"
        using False by (subst findall_from.simps) simp
      show ?thesis
      proof (cases "c = c'")
        case True
        then show ?thesis using match_at_Some[OF Some] False by auto
      next
        case ne: False
        then have "c \<in> set (findall_from alts s (p + length c') (c' = []))"
          using f "1.prems" by simp
        then obtain q where "c \<in> set alts" "p + length c' \<le> q" "q \<le> length s" "occurs_at c s q"
          using "1.IH"(2)[OF False Some] by blast
        then have "c \<in> set alts \<and> p \<le> q \<and> q \<le> length s \<and> occurs_at c s q" by simp
        then show ?thesis by blast
      qed
    qed
  qed
qed

lemma take_drop_eq:
  assumes "take (length c) (drop p s) = c"
  shows "p + length c \<le> length s \<or> c = []" and "\<And>i. i < length c \<Longrightarrow> s ! (p + i) = c ! i"
proof -
  have l: "length (take (length c) (drop p s)) = length c" using assms by simp
  then show "p + length c \<le> length s \<or> c = []" by (cases c) (auto simp: min_def split: if_splits)
  fix i assume i: "i < length c"
  have "c ! i = take (length c) (drop p s) ! i" using assms by simp
  also have "\<dots> = drop p s ! i" using i by simp
  also have "\<dots> = s ! (p + i)" using l i by (simp add: min_def split: if_splits)
  finally show "s ! (p + i) = c ! i" by simp
qed

lemma word_name_word_at:
  assumes "word_name c" "take (length c) (drop p s) = c" "i < length c"
  shows "word_at s (p + i)"
proof -
  have "c \<noteq> []" using assms(1) by (simp add: word_name_def)
  then have "p + length c \<le> length s" using take_drop_eq(1)[OF assms(2)] by simp
  moreover have "s ! (p + i) = c ! i" using take_drop_eq(2)[OF assms(2) assms(3)] .
  moreover have "py_isword (c ! i)" using assms(1,3) by (simp add: word_name_def list_all_length)
  ultimately show ?thesis using assms(3) by (simp add: word_at_def)
qed

lemma inside_no_boundary:
  assumes "word_name c" "take (length c) (drop p s) = c" "p < q" "q < p + length c"
  shows "\<not> word_boundary s q"
proof -
  have a: "word_at s (p + (q - p))" using word_name_word_at[OF assms(1,2), of "q - p"] assms(3,4) by simp
  have b: "word_at s (p + (q - 1 - p))" using word_name_word_at[OF assms(1,2), of "q - 1 - p"] assms(3,4) by simp
  have "p + (q - p) = q" "p + (q - 1 - p) = q - 1" using assms(3) by simp_all
  then show ?thesis using a b assms(3) by (simp add: word_boundary_def)
qed

lemma occurs_unique_le:
  assumes "word_name c" "word_name c'" "occurs_at c s p" "occurs_at c' s p" "length c \<le> length c'"
  shows "c = c'"
proof -
  have tc: "take (length c) (drop p s) = c" and tc': "take (length c') (drop p s) = c'"
    and wb: "word_boundary s (p + length c)"
    using assms(3,4) by (simp_all add: occurs_at_def)
  have ne: "c \<noteq> []" using assms(1) by (simp add: word_name_def)
  have "length c = length c'"
  proof (rule ccontr)
    assume "length c \<noteq> length c'"
    then have lt: "length c < length c'" using assms(5) by simp
    have "p < p + length c" using ne by simp
    then have "\<not> word_boundary s (p + length c)"
      using inside_no_boundary[OF assms(2) tc', of "p + length c"] lt by simp
    then show False using wb by simp
  qed
  then show ?thesis using tc tc' by metis
qed

lemma occurs_unique:
  assumes "word_name c" "word_name c'" "occurs_at c s p" "occurs_at c' s p"
  shows "c = c'"
proof (cases "length c \<le> length c'")
  case True
  then show ?thesis using occurs_unique_le[OF assms] by simp
next
  case False
  then have "length c' \<le> length c" by simp
  then show ?thesis using occurs_unique_le[OF assms(2) assms(1) assms(4) assms(3)] by simp
qed

lemma occurs_at_in_range:
  assumes "c \<noteq> []" "occurs_at c s q"
  shows "q < length s"
  using take_drop_eq(1)[of c q s] assms by (cases c) (auto simp: occurs_at_def)

lemma findall_complete:
  assumes "\<forall>a \<in> set alts. word_name a"
  shows "c \<in> set alts \<Longrightarrow> p \<le> q \<Longrightarrow> occurs_at c s q \<Longrightarrow> c \<in> set (findall_from alts s p adv)"
  using assms
proof (induction alts s p adv rule: findall_from.induct)
  case (1 alts s p adv)
  have wc: "word_name c" using "1.prems" by blast
  then have ne: "c \<noteq> []" by (simp add: word_name_def)
  have ql: "q < length s" using occurs_at_in_range[OF ne "1.prems"(3)] .
  then have np: "\<not> length s < p" using "1.prems"(2) by simp
  show ?case
  proof (cases "match_at alts s p adv")
    case None
    then have f: "findall_from alts s p adv = findall_from alts s (p + 1) False"
      using np by (subst findall_from.simps) simp
    have "q \<noteq> p" using match_at_None[OF None "1.prems"(1) ne] "1.prems"(3) by blast
    then have "p + 1 \<le> q" using "1.prems"(2) by simp
    then show ?thesis using "1.IH"(1)[OF np None "1.prems"(1) _ "1.prems"(3) "1.prems"(4)] f by simp
  next
    case (Some c')
    then have f: "findall_from alts s p adv = c' # findall_from alts s (p + length c') (c' = [])"
      using np by (subst findall_from.simps) simp
    have m: "c' \<in> set alts" "occurs_at c' s p" using match_at_Some[OF Some] by simp_all
    then have wc': "word_name c'" using "1.prems"(4) by blast
    show ?thesis
    proof (cases "q = p")
      case True
      then have "c = c'" using occurs_unique[OF wc wc' _ m(2)] "1.prems"(3) by simp
      then show ?thesis using f by simp
    next
      case False
      then have pq: "p < q" using "1.prems"(2) by simp
      have "\<not> q < p + length c'"
      proof
        assume "q < p + length c'"
        then have "\<not> word_boundary s q"
          using inside_no_boundary[OF wc' _ pq] m(2) by (simp add: occurs_at_def)
        then show False using "1.prems"(3) by (simp add: occurs_at_def)
      qed
      then have "p + length c' \<le> q" by simp
      then show ?thesis
        using "1.IH"(2)[OF np Some "1.prems"(1) _ "1.prems"(3) "1.prems"(4)] f by simp
    qed
  qed
qed

lemma occurs_whole_word_iff:
  "occurs_whole_word c s \<longleftrightarrow> (\<exists>q \<le> length s. occurs_at c s q)"
proof -
  have "set [0 ..< Suc (length s)] = {q. q \<le> length s}" by auto
  then show ?thesis unfolding occurs_whole_word_def list_ex_iff by blast
qed

lemma found_iff_occurs:
  assumes "\<forall>a \<in> set alts. word_name a" "c \<in> set alts"
  shows "c \<in> set (findall_from alts s 0 False) \<longleftrightarrow> occurs_whole_word c s"
proof
  assume "c \<in> set (findall_from alts s 0 False)"
  then show "occurs_whole_word c s" using findall_sound[of c alts s 0 False]
    by (auto simp: occurs_whole_word_iff)
next
  assume "occurs_whole_word c s"
  then obtain q where "occurs_at c s q" by (auto simp: occurs_whole_word_iff)
  then show "c \<in> set (findall_from alts s 0 False)"
    using findall_complete[OF assms(1) assms(2), of 0 q s False] by simp
qed

lemma clean_idempotent:
  "clean_null_compounds (fst (clean_null_compounds cl rl)) rl = (fst (clean_null_compounds cl rl), [])"
proof -
  define s where "s = py_join '' '' rl"
  define F where "F = set (findall_from (alternatives cl) s 0 False)"
  define r where "r = [c \<leftarrow> cl. c \<in> F]"
  have fr: "fst (clean_null_compounds cl rl) = r"
    by (simp add: clean_null_compounds_def Let_def r_def F_def s_def)
  show ?thesis
  proof (cases "r = []")
    case True
    then show ?thesis unfolding fr by (simp add: clean_null_compounds_def)
  next
    case False
    then have "cl \<noteq> []" by (auto simp: r_def)
    then have a: "alternatives cl = cl" and a': "alternatives r = r"
      using False by (simp_all add: alternatives_def)
    have "\<forall>c \<in> set (findall_from cl s 0 False). c \<in> F" by (simp add: F_def a)
    then have "findall_from [c \<leftarrow> cl. c \<in> F] s 0 False = findall_from cl s 0 False"
      by (rule findall_filter)
    then have "findall_from r s 0 False = findall_from cl s 0 False"
      by (simp only: r_def)
    then have "set (findall_from (alternatives r) s 0 False) = F"
      by (simp only: a' F_def a)
    then have "clean_null_compounds r rl = ([c \<leftarrow> r. c \<in> F], [c \<leftarrow> r. c \<notin> F])"
      by (simp add: clean_null_compounds_def Let_def s_def)
    moreover have "[c \<leftarrow> r. c \<in> F] = r" "[c \<leftarrow> r. c \<notin> F] = []" by (auto simp: r_def)
    ultimately show ?thesis unfolding fr by simp
  qed
qed

lemma clean_retained_occurs:
  assumes "c \<in> set (fst (clean_null_compounds cl rl))"
  shows "occurs_whole_word c (py_join '' '' rl)"
proof -
  have "c \<in> set (findall_from (alternatives cl) (py_join '' '' rl) 0 False)"
    using assms by (simp add: clean_null_compounds_def Let_def)
  then show ?thesis using findall_sound[of c "alternatives cl" "py_join '' '' rl" 0 False]
    by (auto simp: occurs_whole_word_iff)
qed

lemma clean_word_names:
  assumes "\<forall>c \<in> set cl. word_name c"
  shows "clean_null_compounds cl rl =
           ([c \<leftarrow> cl. occurs_whole_word c (py_join '' '' rl)],
            [c \<leftarrow> cl. \<not> occurs_whole_word c (py_join '' '' rl)])"
proof (cases "cl = []")
  case True
  then show ?thesis by (simp add: clean_null_compounds_def)
next
  case False
  then have a: "alternatives cl = cl" by (simp add: alternatives_def)
  have "c \<in> set cl \<Longrightarrow>
          c \<in> set (findall_from cl (py_join '' '' rl) 0 False) \<longleftrightarrow> occurs_whole_word c (py_join '' '' rl)" for c
    using found_iff_occurs[OF assms] by simp
  then have "[c \<leftarrow> cl. c \<in> set (findall_from cl (py_join '' '' rl) 0 False)]
               = [c \<leftarrow> cl. occurs_whole_word c (py_join '' '' rl)]"
    and "[c \<leftarrow> cl. c \<notin> set (findall_from cl (py_join '' '' rl) 0 False)]
               = [c \<leftarrow> cl. \<not> occurs_whole_word c (py_join '' '' rl)]"
    by (auto intro: filter_cong)
  then show ?thesis by (simp add: clean_null_compounds_def Let_def a)
qed

text \<open>
  Claim C7, as the code has it. The two results are the two parts of one filter of the
  input list, so each keeps the input order. A retained name always occurs as a whole
  word in the joined reaction texts. When every name is a non-empty string of word
  characters, a name is retained exactly when it occurs as a whole word. A second pass
  over the retained list against the same texts returns it unchanged, with nothing
  dropped.
\<close>

theorem clean_null_compounds_whole_word:
  "(\<exists>P. clean_null_compounds cl rl = (filter P cl, filter (\<lambda>c. \<not> P c) cl))
   \<and> (\<forall>c \<in> set (fst (clean_null_compounds cl rl)). occurs_whole_word c (py_join '' '' rl))
   \<and> ((\<forall>c \<in> set cl. word_name c) \<longrightarrow>
        clean_null_compounds cl rl =
           ([c \<leftarrow> cl. occurs_whole_word c (py_join '' '' rl)],
            [c \<leftarrow> cl. \<not> occurs_whole_word c (py_join '' '' rl)]))
   \<and> clean_null_compounds (fst (clean_null_compounds cl rl)) rl
        = (fst (clean_null_compounds cl rl), [])"
proof -
  have "\<exists>P. clean_null_compounds cl rl = (filter P cl, filter (\<lambda>c. \<not> P c) cl)"
    unfolding clean_null_compounds_def Let_def by blast
  then show ?thesis
    using clean_retained_occurs clean_word_names clean_idempotent by blast
qed

theorem clean_null_compounds_whole_word_witness:
  "word_name ''NO2'' \<and> word_name ''HNO3''
   \<and> clean_null_compounds [''NO2'', ''HNO3''] [''fHNO3(i) = 1;'', ''Rnames = 'HNO3 + hv';'']
       = ([''HNO3''], [''NO2''])
   \<and> occurs_whole_word ''HNO3'' (py_join '' '' [''fHNO3(i) = 1;'', ''Rnames = 'HNO3 + hv';''])
   \<and> clean_null_compounds [''HNO3''] [''fHNO3(i) = 1;'', ''Rnames = 'HNO3 + hv';'']
       = ([''HNO3''], [])"
proof -
  let ?cl = "[''NO2'', ''HNO3'']" and ?rl = "[''fHNO3(i) = 1;'', ''Rnames = 'HNO3 + hv';'']"
  have w: "word_name ''NO2''" "word_name ''HNO3''"
    by (simp_all add: word_name_def py_isword_def)
  then have wa: "\<forall>c \<in> set ?cl. word_name c" by simp
  have o: "occurs_whole_word ''HNO3'' (py_join '' '' ?rl)"
    by (simp add: occurs_whole_word_def occurs_at_def word_boundary_def word_at_def py_isword_def)
  have n: "\<not> occurs_whole_word ''NO2'' (py_join '' '' ?rl)"
    by (simp add: occurs_whole_word_def occurs_at_def word_boundary_def word_at_def py_isword_def)
  from clean_null_compounds_whole_word[of ?cl ?rl] wa
  have c: "clean_null_compounds ?cl ?rl =
           ([c \<leftarrow> ?cl. occurs_whole_word c (py_join '' '' ?rl)],
            [c \<leftarrow> ?cl. \<not> occurs_whole_word c (py_join '' '' ?rl)])"
    and i: "clean_null_compounds (fst (clean_null_compounds ?cl ?rl)) ?rl
            = (fst (clean_null_compounds ?cl ?rl), [])"
    by blast+
  have c': "clean_null_compounds ?cl ?rl = ([''HNO3''], [''NO2''])"
    unfolding c using o n by simp
  then have "clean_null_compounds [''HNO3''] ?rl = ([''HNO3''], [])" using i by simp
  with w c' o show ?thesis by blast
qed

text \<open>
  With names that hold other characters the matches of \<open>findall\<close> can overlap: \<open>B\<close> occurs
  as a whole word in \<open>A.B\<close>, but the match of \<open>A.B\<close> consumes it and \<open>B\<close> is dropped.
\<close>

theorem clean_null_compounds_overlap_counterexample:
  "clean_null_compounds [''A.B'', ''B''] [''A.B''] = ([''A.B''], [''B''])
   \<and> occurs_whole_word ''B'' (py_join '' '' [''A.B''])"
proof -
  have f: "findall_from [''A.B'', ''B''] ''A.B'' 0 False = [''A.B'']"
    by (simp add: findall_from.simps match_at_def word_boundary_def word_at_def py_isword_def)
  have o: "occurs_whole_word ''B'' ''A.B''"
    by (simp add: occurs_whole_word_def occurs_at_def word_boundary_def word_at_def py_isword_def)
  show ?thesis using f o by (simp add: clean_null_compounds_def alternatives_def)
qed

section \<open>Properties of the photolysis branch\<close>

lemma search_after_Some:
  "search_after key cls s = Some g \<Longrightarrow>
     \<exists>pre rest. s = pre @ key @ g @ rest \<and> g \<noteq> [] \<and> (\<forall>c \<in> set g. cls c)
       \<and> (rest = [] \<or> \<not> cls (hd rest))"
proof (induction s)
  case Nil
  then show ?case by simp
next
  case (Cons c cs)
  let ?s = "c # cs"
  show ?case
  proof (cases "take (length key) ?s = key \<and> drop (length key) ?s \<noteq> []
                 \<and> cls (hd (drop (length key) ?s))")
    case True
    let ?d = "drop (length key) ?s"
    have g: "g = takeWhile cls ?d" using Cons.prems True by simp
    have "?s = take (length key) ?s @ ?d" by simp
    also have "\<dots> = key @ takeWhile cls ?d @ dropWhile cls ?d" using True by simp
    finally have d: "?s = [] @ key @ g @ dropWhile cls ?d" using g by simp
    have ne: "g \<noteq> []" using True g by (cases ?d) auto
    have al: "\<forall>x \<in> set g. cls x" using g by (auto dest: set_takeWhileD)
    have r: "dropWhile cls ?d = [] \<or> \<not> cls (hd (dropWhile cls ?d))"
      using hd_dropWhile[of cls ?d] by blast
    show ?thesis using d ne al r by blast
  next
    case False
    then have "search_after key cls cs = Some g" using Cons.prems by auto
    then obtain pre rest where "cs = pre @ key @ g @ rest" "g \<noteq> []" "\<forall>c \<in> set g. cls c"
      "rest = [] \<or> \<not> cls (hd rest)" using Cons.IH by blast
    then have "?s = (c # pre) @ key @ g @ rest \<and> g \<noteq> [] \<and> (\<forall>c \<in> set g. cls c)
      \<and> (rest = [] \<or> \<not> cls (hd rest))" by simp
    then show ?thesis by blast
  qed
qed

lemma search_after_exists:
  "key \<noteq> [] \<Longrightarrow> cls n \<Longrightarrow> \<exists>g. search_after key cls (pre @ key @ n # rest) = Some g"
proof (induction pre)
  case Nil
  then obtain k ks where k: "key = k # ks" by (cases key) auto
  then show ?case using Nil by simp
next
  case (Cons c pre)
  then show ?case by auto
qed









section \<open>Properties of the rate translation\<close>





























end
